theory Spec2Isabelle
  imports Main "HOL-Library.Multiset"
begin

section \<open>Arrays and tensors\<close>

text \<open>
  The buffers of \<^verbatim>\<open>ilkit/util/buffer.py\<close> hold torch tensors and receive numpy arrays.
  Both are modelled by the same type: a shape and the elements in row-major order.
  The element type is a parameter: the dtype conversions of \<^verbatim>\<open>np.array(_, dtype=...)\<close>
  change neither shapes nor positions, and the device of a tensor decides nothing here,
  so the model carries the elements as they are after conversion.
\<close>

datatype 'a tensor = Tensor (shape: "nat list") (elems: "'a list")

datatype error = AssertionError | RuntimeError | IndexError | KeyError | ZeroDivisionError

datatype dtype = Int64 | Float32 | OtherDtype

text \<open>\<^verbatim>\<open>sys.maxsize\<close> on a 64-bit CPython.\<close>

definition maxsize :: int where
  "maxsize = 2 ^ 63 - 1"

text \<open>\<^verbatim>\<open>th.zeros(shape)\<close>.\<close>

definition zeros :: "nat list \<Rightarrow> 'a::zero tensor" where
  "zeros sh = Tensor sh (replicate (prod_list sh) 0)"

text \<open>\<^verbatim>\<open>th.unsqueeze(t, dim=0)\<close>.\<close>

definition unsqueeze0 :: "'a tensor \<Rightarrow> 'a tensor" where
  "unsqueeze0 t = Tensor (1 # shape t) (elems t)"

text \<open>\<^verbatim>\<open>np.array([x], dtype=...)\<close>: one more leading axis of length 1.\<close>

definition np_list1 :: "'a tensor \<Rightarrow> 'a tensor" where
  "np_list1 t = Tensor (1 # shape t) (elems t)"

text \<open>
  \<^verbatim>\<open>th.cat((a, b), dim=0)\<close>. Zero-dimensional tensors are refused; a one-dimensional
  empty tensor (shape \<open>(0,)\<close>) is skipped, whatever the other shape is; otherwise the two
  shapes must agree behind the leading axis.
\<close>

definition cat0 :: "'a tensor \<Rightarrow> 'a tensor \<Rightarrow> error + 'a tensor" where
  "cat0 a b =
     (if shape a = [] \<or> shape b = [] then Inl RuntimeError
      else if shape a = [0] then Inr b
      else if shape b = [0] then Inr a
      else if length (shape a) = length (shape b) \<and> tl (shape a) = tl (shape b)
        then Inr (Tensor ((hd (shape a) + hd (shape b)) # tl (shape a)) (elems a @ elems b))
      else Inl RuntimeError)"

text \<open>Row \<open>i\<close> along the leading axis, as a flat list.\<close>

definition row :: "'a tensor \<Rightarrow> nat \<Rightarrow> 'a list" where
  "row t i = (let r = prod_list (tl (shape t)) in take r (drop (i * r) (elems t)))"

definition chunks :: "nat \<Rightarrow> nat \<Rightarrow> 'a list \<Rightarrow> 'a list list" where
  "chunks k n xs = map (\<lambda>i. take n (drop (i * n) xs)) [0..<k]"

text \<open>
  Broadcasting the elements of a source of shape \<open>ss\<close> to the shape \<open>ts\<close> of the same
  rank: an axis of equal length is traversed, an axis of length 1 is repeated.
\<close>

fun expand_data :: "nat list \<Rightarrow> nat list \<Rightarrow> 'a list \<Rightarrow> 'a list" where
  "expand_data (s # ss) (t # ts) xs =
     (if s = t then concat (map (expand_data ss ts) (chunks s (prod_list ss) xs))
      else concat (replicate t (expand_data ss ts xs)))"
| "expand_data _ _ xs = xs"

definition broadcast_to :: "nat list \<Rightarrow> nat list \<Rightarrow> 'a list \<Rightarrow> 'a list option" where
  "broadcast_to ss ts xs =
     (if length ss \<le> length ts
      then (let ss' = replicate (length ts - length ss) 1 @ ss
            in if list_all2 (\<lambda>s t. s = t \<or> s = 1) ss' ts
               then Some (expand_data ss' ts xs) else None)
      else None)"

text \<open>
  \<^verbatim>\<open>buffer[i] = v\<close> with an integer \<open>i\<close>, in place: a negative index counts from the
  end, an index out of range raises, and the value (its leading axes of length 1
  dropped, as torch does for an assignment) is broadcast to the shape of the slot.
\<close>

definition setitem :: "'a tensor \<Rightarrow> int \<Rightarrow> 'a tensor \<Rightarrow> error + 'a tensor" where
  "setitem t i v =
     (case shape t of
        [] \<Rightarrow> Inl IndexError
      | n # rs \<Rightarrow>
          (let j = (if i < 0 then i + int n else i)
           in if j < 0 \<or> int n \<le> j then Inl IndexError
              else (case broadcast_to (dropWhile (\<lambda>d. d = 1) (shape v)) rs (elems v) of
                      None \<Rightarrow> Inl RuntimeError
                    | Some r \<Rightarrow>
                        Inr (Tensor (shape t)
                              (take (nat j * prod_list rs) (elems t) @ r @
                               drop ((nat j + 1) * prod_list rs) (elems t))))))"

text \<open>\<^verbatim>\<open>a[i]\<close> on a numpy array, for \<open>i\<close> from a \<^verbatim>\<open>range\<close>.\<close>

definition getitem :: "'a tensor \<Rightarrow> nat \<Rightarrow> error + 'a tensor" where
  "getitem a i =
     (case shape a of
        [] \<Rightarrow> Inl IndexError
      | n # rs \<Rightarrow> if i < n then Inr (Tensor rs (row a i)) else Inl IndexError)"

text \<open>\<^verbatim>\<open>buffer[idx]\<close> with a list of indices: a new tensor gathering those rows.\<close>

definition index_list :: "'a tensor \<Rightarrow> nat list \<Rightarrow> error + 'a tensor" where
  "index_list t idx =
     (case shape t of
        [] \<Rightarrow> Inl IndexError
      | n # rs \<Rightarrow>
          if list_all (\<lambda>i. i < n) idx
          then Inr (Tensor (length idx # rs) (concat (map (row t) idx)))
          else Inl IndexError)"

section \<open>The buffer object\<close>

text \<open>
  \<^verbatim>\<open>TransitionBuffer\<close> and \<^verbatim>\<open>DAggerBuffer\<close> have the same attributes; \<open>size_b\<close> is
  the attribute \<^verbatim>\<open>size\<close>. Python integers are unbounded: \<open>int\<close>.
\<close>

record 'a buffer =
  state_shape :: "nat list"
  action_shape :: "nat list"
  action_dtype :: dtype
  buffer_size :: int
  buffers :: "'a tensor list"
  ptr :: int
  size_b :: int
  total_size :: int

text \<open>\<^verbatim>\<open>TransitionBuffer.clear\<close>.\<close>

definition clear :: "'a::zero buffer \<Rightarrow> 'a buffer" where
  "clear b =
     b\<lparr>buffers :=
         [zeros (0 # state_shape b),
          zeros (if action_dtype b = Int64 then [0, 1] else 0 # action_shape b),
          zeros (0 # state_shape b),
          zeros [0, 1],
          zeros [0, 1]],
       ptr := 0, size_b := 0, total_size := 0\<rparr>"

text \<open>\<^verbatim>\<open>TransitionBuffer.__init__\<close>.\<close>

definition init :: "nat list \<Rightarrow> nat list \<Rightarrow> dtype \<Rightarrow> int \<Rightarrow> error + 'a::zero buffer" where
  "init ss as dt bs =
     (if dt \<noteq> Int64 \<and> dt \<noteq> Float32 then Inl AssertionError
      else Inr (clear \<lparr>state_shape = ss, action_shape = as, action_dtype = dt,
                       buffer_size = (if bs \<noteq> - 1 then bs else maxsize),
                       buffers = [], ptr = 0, size_b = 0, total_size = 0\<rparr>))"

text \<open>
  The list comprehension of the append branch,
  \<^verbatim>\<open>[th.cat((self.buffers[i], th.unsqueeze(new_transition[i], dim=0)), dim=0) for i in range(len(new_transition))]\<close>:
  it raises at the first field that does not fit, and \<^verbatim>\<open>self.buffers\<close> is assigned
  only when every field went through.
\<close>

fun cat_all :: "'a tensor list \<Rightarrow> 'a tensor list \<Rightarrow> error + 'a tensor list" where
  "cat_all bs [] = Inr []"
| "cat_all [] (n # ns) = Inl IndexError"
| "cat_all (b # bs) (n # ns) =
     (case cat0 b (unsqueeze0 n) of
        Inl e \<Rightarrow> Inl e
      | Inr c \<Rightarrow> (case cat_all bs ns of Inl e \<Rightarrow> Inl e | Inr cs \<Rightarrow> Inr (c # cs)))"

text \<open>
  The loop of the overwrite branch,
  \<^verbatim>\<open>for buffer, new_data in zip(self.buffers, new_transition): buffer[self.ptr] = new_data\<close>:
  the tensors are written in place one after the other, so a raise leaves the earlier
  ones written.
\<close>

fun overwrite_all :: "'a tensor list \<Rightarrow> 'a tensor list \<Rightarrow> int \<Rightarrow> error option \<times> 'a tensor list" where
  "overwrite_all (b # bs) (n # ns) p =
     (case setitem b p n of
        Inl e \<Rightarrow> (Some e, b # bs)
      | Inr c \<Rightarrow> (case overwrite_all bs ns p of (r, cs) \<Rightarrow> (r, c # cs)))"
| "overwrite_all bs _ p = (None, bs)"

text \<open>
  Lines 62 to 65 (and 172 to 175): the pointer, the size and the total. The modulo
  raises when \<^verbatim>\<open>buffer_size\<close> is 0, before any of the three is assigned.
\<close>

definition advance :: "'a buffer \<Rightarrow> error option \<times> 'a buffer" where
  "advance b =
     (if buffer_size b = 0 then (Some ZeroDivisionError, b)
      else (None, b\<lparr>ptr := (ptr b + 1) mod buffer_size b,
                    size_b := min (size_b b + 1) (buffer_size b),
                    total_size := total_size b + 1\<rparr>))"

text \<open>
  Lines 53 to 65 of \<^verbatim>\<open>TransitionBuffer.insert_transition\<close>, which are lines 163 to 175
  of \<^verbatim>\<open>DAggerBuffer.insert_transition\<close> word for word. The result is the exception
  raised, if any, and the object as the call leaves it.
\<close>

definition push :: "'a tensor list \<Rightarrow> 'a buffer \<Rightarrow> error option \<times> 'a buffer" where
  "push new_transition b =
     (if total_size b \<le> buffer_size b
      then (case cat_all (buffers b) new_transition of
              Inl e \<Rightarrow> (Some e, b)
            | Inr cs \<Rightarrow> advance (b\<lparr>buffers := cs\<rparr>))
      else (case overwrite_all (buffers b) new_transition (ptr b) of
              (Some e, cs) \<Rightarrow> (Some e, b\<lparr>buffers := cs\<rparr>)
            | (None, cs) \<Rightarrow> advance (b\<lparr>buffers := cs\<rparr>)))"

text \<open>\<^verbatim>\<open>TransitionBuffer.insert_transition\<close>.\<close>

definition insert_transition ::
  "'a tensor \<Rightarrow> 'a tensor \<Rightarrow> 'a tensor \<Rightarrow> 'a tensor \<Rightarrow> 'a tensor \<Rightarrow> 'a buffer
   \<Rightarrow> error option \<times> 'a buffer" where
  "insert_transition state action next_state reward dn b =
     (let action' = (if action_dtype b = Int64 then np_list1 action else action);
          reward' = np_list1 reward;
          dn' = np_list1 dn
      in push [state, action', next_state, reward', dn'] b)"

text \<open>
  \<^verbatim>\<open>TransitionBuffer.insert_batch\<close>: the loop over \<^verbatim>\<open>range(states.shape[0])\<close>. A row
  that cannot be read, or an insertion that raises, ends the loop with the rows before
  it inserted.
\<close>

fun insert_rows ::
  "nat list \<Rightarrow> 'a tensor \<Rightarrow> 'a tensor \<Rightarrow> 'a tensor \<Rightarrow> 'a tensor \<Rightarrow> 'a tensor \<Rightarrow> 'a buffer
   \<Rightarrow> error option \<times> 'a buffer" where
  "insert_rows [] states actions next_states rewards dones b = (None, b)"
| "insert_rows (i # is) states actions next_states rewards dones b =
     (case getitem states i of Inl e \<Rightarrow> (Some e, b) | Inr s \<Rightarrow>
      (case getitem actions i of Inl e \<Rightarrow> (Some e, b) | Inr a \<Rightarrow>
      (case getitem next_states i of Inl e \<Rightarrow> (Some e, b) | Inr ns \<Rightarrow>
      (case getitem rewards i of Inl e \<Rightarrow> (Some e, b) | Inr r \<Rightarrow>
      (case getitem dones i of Inl e \<Rightarrow> (Some e, b) | Inr d \<Rightarrow>
      (case insert_transition s a ns r d b of
         (Some e, b') \<Rightarrow> (Some e, b')
       | (None, b') \<Rightarrow> insert_rows is states actions next_states rewards dones b'))))))"

definition insert_batch ::
  "'a tensor \<Rightarrow> 'a tensor \<Rightarrow> 'a tensor \<Rightarrow> 'a tensor \<Rightarrow> 'a tensor \<Rightarrow> 'a buffer
   \<Rightarrow> error option \<times> 'a buffer" where
  "insert_batch states actions next_states rewards dones b =
     (case shape states of
        [] \<Rightarrow> (Some IndexError, b)
      | n # _ \<Rightarrow> insert_rows [0..<n] states actions next_states rewards dones b)"

text \<open>\<^verbatim>\<open>TransitionBuffer.insert_dataset\<close>: a missing key raises before any insertion.\<close>

definition insert_dataset :: "(string \<rightharpoonup> 'a tensor) \<Rightarrow> 'a buffer \<Rightarrow> error option \<times> 'a buffer" where
  "insert_dataset dataset b =
     (case dataset ''observations'' of None \<Rightarrow> (Some KeyError, b) | Some observations \<Rightarrow>
      (case dataset ''actions'' of None \<Rightarrow> (Some KeyError, b) | Some actions \<Rightarrow>
      (case dataset ''next_observations'' of None \<Rightarrow> (Some KeyError, b) | Some next_observations \<Rightarrow>
      (case dataset ''rewards'' of None \<Rightarrow> (Some KeyError, b) | Some rewards \<Rightarrow>
      (case dataset ''terminals'' of None \<Rightarrow> (Some KeyError, b) | Some terminals \<Rightarrow>
         insert_batch observations actions next_observations rewards terminals b)))))"

text \<open>\<^verbatim>\<open>idx[:batch_size]\<close>: a negative bound counts from the end.\<close>

definition slice_to :: "'b list \<Rightarrow> int \<Rightarrow> 'b list" where
  "slice_to xs k = (if 0 \<le> k then take (nat k) xs else take (length xs - nat (- k)) xs)"

text \<open>\<^verbatim>\<open>[buffer[idx] for buffer in self.buffers]\<close>.\<close>

fun gather_all :: "'a tensor list \<Rightarrow> nat list \<Rightarrow> error + 'a tensor list" where
  "gather_all [] idx = Inr []"
| "gather_all (t # ts) idx =
     (case index_list t idx of
        Inl e \<Rightarrow> Inl e
      | Inr g \<Rightarrow> (case gather_all ts idx of Inl e \<Rightarrow> Inl e | Inr gs \<Rightarrow> Inr (g # gs)))"

text \<open>
  \<^verbatim>\<open>TransitionBuffer.sample\<close> (and \<^verbatim>\<open>DAggerBuffer.sample\<close>, the same text). The
  outcome of \<^verbatim>\<open>random.shuffle\<close> is the parameter \<open>rnd\<close>. The result is paired with the
  object as the call leaves it.
\<close>

definition sample ::
  "(nat list \<Rightarrow> nat list) \<Rightarrow> int option \<Rightarrow> bool \<Rightarrow> 'a buffer
   \<Rightarrow> (error + 'a tensor list) \<times> 'a buffer" where
  "sample rnd batch_size shuffle b =
     (let idx = [0..<nat (size_b b)];
          idx = (if shuffle then rnd idx else idx);
          idx = (case batch_size of None \<Rightarrow> idx | Some k \<Rightarrow> slice_to idx k)
      in (gather_all (buffers b) idx, b))"

section \<open>DAggerBuffer\<close>

text \<open>\<^verbatim>\<open>DAggerBuffer.clear\<close>.\<close>

definition dagger_clear :: "'a::zero buffer \<Rightarrow> 'a buffer" where
  "dagger_clear b =
     b\<lparr>buffers :=
         [zeros (0 # state_shape b),
          zeros (if action_dtype b = Int64 then [0, 1] else 0 # action_shape b)],
       ptr := 0, size_b := 0, total_size := 0\<rparr>"

text \<open>\<^verbatim>\<open>DAggerBuffer.__init__\<close>.\<close>

definition dagger_init :: "nat list \<Rightarrow> nat list \<Rightarrow> dtype \<Rightarrow> int \<Rightarrow> error + 'a::zero buffer" where
  "dagger_init ss as dt bs =
     (if dt \<noteq> Int64 \<and> dt \<noteq> Float32 then Inl AssertionError
      else Inr (dagger_clear \<lparr>state_shape = ss, action_shape = as, action_dtype = dt,
                              buffer_size = (if bs \<noteq> - 1 then bs else maxsize),
                              buffers = [], ptr = 0, size_b = 0, total_size = 0\<rparr>))"

text \<open>\<^verbatim>\<open>DAggerBuffer.insert_transition\<close>.\<close>

definition dagger_insert_transition ::
  "'a tensor \<Rightarrow> 'a tensor \<Rightarrow> 'a buffer \<Rightarrow> error option \<times> 'a buffer" where
  "dagger_insert_transition state action b =
     (let action' = (if action_dtype b = Int64 then np_list1 action else action)
      in push [state, action'] b)"

section \<open>Invariants of the storage\<close>

text \<open>The leading length \<^verbatim>\<open>t.shape[0]\<close> of a tensor of at least one axis.\<close>

definition leading :: "'a tensor \<Rightarrow> nat" where
  "leading t = hd (shape t)"

text \<open>
  What holds of an object of \<open>k\<close> fields in every state the program can reach. The
  storage arrays have one common leading length. With a buffer size of at least 1 the
  size is \<open>min total_size buffer_size\<close>, the pointer is the total modulo the buffer
  size, and the common leading length is \<open>min total_size (buffer_size + 1)\<close>: line 53
  appends while \<^verbatim>\<open>total_size <= buffer_size\<close>, one row more than the size can count.
  With a buffer size below 1 no insertion ever returns and the counters stay 0.
\<close>

definition buffer_inv :: "nat \<Rightarrow> 'a buffer \<Rightarrow> bool" where
  "buffer_inv k b \<longleftrightarrow>
     length (buffers b) = k \<and> 0 < k \<and> 0 \<le> total_size b \<and>
     (\<forall>t\<in>set (buffers b). shape t \<noteq> [] \<and> leading t = leading (hd (buffers b))) \<and>
     (if 1 \<le> buffer_size b
      then size_b b = min (total_size b) (buffer_size b) \<and>
           int (leading (hd (buffers b))) = min (total_size b) (buffer_size b + 1) \<and>
           ptr b = total_size b mod buffer_size b
      else total_size b = 0 \<and> size_b b = 0 \<and> ptr b = 0 \<and>
           (buffer_size b < 0 \<longrightarrow> leading (hd (buffers b)) = 0))"

text \<open>All arrays have at least one axis and the leading length \<open>L\<close>.\<close>

definition all_lead :: "'a tensor list \<Rightarrow> nat \<Rightarrow> bool" where
  "all_lead ts L \<longleftrightarrow> (\<forall>t\<in>set ts. shape t \<noteq> [] \<and> leading t = L)"

section \<open>Reachable states\<close>

text \<open>
  The objects a program can hold: a \<^verbatim>\<open>TransitionBuffer\<close> as its constructor returns it,
  and whatever \<^verbatim>\<open>insert_transition\<close> (returning or raising) and \<^verbatim>\<open>clear\<close> leave
  behind. \<^verbatim>\<open>insert_batch\<close> and \<^verbatim>\<open>insert_dataset\<close> only call \<^verbatim>\<open>insert_transition\<close>,
  and \<^verbatim>\<open>sample\<close> changes nothing.
\<close>

inductive reachable :: "'a::zero buffer \<Rightarrow> bool" where
  reach_init: "init ss as dt bs = Inr b \<Longrightarrow> reachable b"
| reach_insert: "reachable b \<Longrightarrow> reachable (snd (insert_transition s a ns r d b))"
| reach_clear: "reachable b \<Longrightarrow> reachable (clear b)"

text \<open>The same for a \<^verbatim>\<open>DAggerBuffer\<close>.\<close>

inductive dagger_reachable :: "'a::zero buffer \<Rightarrow> bool" where
  dreach_init: "dagger_init ss as dt bs = Inr b \<Longrightarrow> dagger_reachable b"
| dreach_insert: "dagger_reachable b \<Longrightarrow> dagger_reachable (snd (dagger_insert_transition s a b))"
| dreach_clear: "dagger_reachable b \<Longrightarrow> dagger_reachable (dagger_clear b)"

section \<open>Example objects\<close>

text \<open>
  The scenario of the specification: a \<^verbatim>\<open>TransitionBuffer\<close> of buffer size 3 for
  discrete actions and states of shape \<open>(1,)\<close>, as \<^verbatim>\<open>init [1] [] Int64 3\<close> returns it.
\<close>

definition ex_empty :: "int buffer" where
  "ex_empty = clear \<lparr>state_shape = [1], action_shape = [], action_dtype = Int64,
                       buffer_size = 3, buffers = [], ptr = 0, size_b = 0, total_size = 0\<rparr>"

text \<open>Inserting the transition with state \<open>[k]\<close>, action 0, next state \<open>[k + 1]\<close>, reward 1, not done.\<close>

definition ex_insert :: "int \<Rightarrow> int buffer \<Rightarrow> error option \<times> int buffer" where
  "ex_insert k b =
     insert_transition (Tensor [1] [k]) (Tensor [] [0]) (Tensor [1] [k + 1])
       (Tensor [] [1]) (Tensor [] [0]) b"

definition ex_three :: "int buffer" where
  "ex_three = snd (ex_insert 2 (snd (ex_insert 1 (snd (ex_insert 0 ex_empty)))))"

definition ex_four :: "int buffer" where
  "ex_four = snd (ex_insert 3 ex_three)"

text \<open>The same buffer built without a buffer size, as \<^verbatim>\<open>init [1] [] Int64 (- 1)\<close> returns it.\<close>

definition ex_unbounded :: "int buffer" where
  "ex_unbounded = clear \<lparr>state_shape = [1], action_shape = [], action_dtype = Int64,
                           buffer_size = maxsize, buffers = [], ptr = 0, size_b = 0,
                           total_size = 0\<rparr>"

text \<open>A \<^verbatim>\<open>DAggerBuffer\<close> of buffer size 3, as \<^verbatim>\<open>dagger_init [1] [] Int64 3\<close> returns it.\<close>

definition ex_dagger :: "int buffer" where
  "ex_dagger = dagger_clear \<lparr>state_shape = [1], action_shape = [], action_dtype = Int64,
                               buffer_size = 3, buffers = [], ptr = 0, size_b = 0,
                               total_size = 0\<rparr>"

section \<open>Sequences of insertions and datasets\<close>

text \<open>
  A transition as \<^verbatim>\<open>insert_transition\<close> takes it: state, action, next state, reward, done.
\<close>

type_synonym 'a transition = "'a tensor \<times> 'a tensor \<times> 'a tensor \<times> 'a tensor \<times> 'a tensor"

text \<open>
  The specification's "N sequential \<^verbatim>\<open>insert_transition\<close> calls": one call after the
  other on the same object, the first exception ending the sequence.
\<close>

fun seq_insert :: "'a transition list \<Rightarrow> 'a buffer \<Rightarrow> error option \<times> 'a buffer" where
  "seq_insert [] b = (None, b)"
| "seq_insert ((s, a, ns, r, d) # ts) b =
     (case insert_transition s a ns r d b of
        (Some e, b') \<Rightarrow> (Some e, b')
      | (None, b') \<Rightarrow> seq_insert ts b')"

text \<open>Row \<open>i\<close> of an array of at least one axis, as an array.\<close>

definition nth_row :: "'a tensor \<Rightarrow> nat \<Rightarrow> 'a tensor" where
  "nth_row a i = Tensor (tl (shape a)) (row a i)"

text \<open>An array of \<open>n\<close> rows.\<close>

definition has_rows :: "'a tensor \<Rightarrow> nat \<Rightarrow> bool" where
  "has_rows a n \<longleftrightarrow> shape a \<noteq> [] \<and> hd (shape a) = n"

text \<open>The rows of a bundle of \<open>n\<close> rows, as transitions, in order.\<close>

definition dataset_rows ::
  "'a tensor \<Rightarrow> 'a tensor \<Rightarrow> 'a tensor \<Rightarrow> 'a tensor \<Rightarrow> 'a tensor \<Rightarrow> nat \<Rightarrow> 'a transition list" where
  "dataset_rows observations actions next_observations rewards terminals n =
     map (\<lambda>i. (nth_row observations i, nth_row actions i, nth_row next_observations i,
               nth_row rewards i, nth_row terminals i)) [0..<n]"

text \<open>A bundle of two rows.\<close>

definition ex_dataset :: "string \<rightharpoonup> int tensor" where
  "ex_dataset = [''observations'' \<mapsto> Tensor [2, 1] [5, 6],
                 ''actions'' \<mapsto> Tensor [2] [0, 1],
                 ''next_observations'' \<mapsto> Tensor [2, 1] [6, 7],
                 ''rewards'' \<mapsto> Tensor [2] [1, 1],
                 ''terminals'' \<mapsto> Tensor [2] [0, 1]]"

section \<open>Further properties of the storage arrays\<close>

text \<open>
  What the storage arrays of a reachable buffer satisfy besides their length: each has
  at least one axis, and a one-dimensional empty array has no elements.
\<close>

definition plain :: "'a tensor list \<Rightarrow> bool" where
  "plain ts \<longleftrightarrow> (\<forall>t\<in>set ts. shape t \<noteq> [] \<and> (shape t = [0] \<longrightarrow> elems t = []))"

text \<open>The elements of field \<open>f\<close> of a sequence of transitions, one after the other.\<close>

definition field_elems :: "('a transition \<Rightarrow> 'a tensor) \<Rightarrow> 'a transition list \<Rightarrow> 'a list" where
  "field_elems f ts = concat (map (\<lambda>t. elems (f t)) ts)"

text \<open>The five fields of a transition, in the order of the storage arrays.\<close>

definition fields :: "('a transition \<Rightarrow> 'a tensor) list" where
  "fields = [\<lambda>(s, a, ns, r, d). s, \<lambda>(s, a, ns, r, d). a, \<lambda>(s, a, ns, r, d). ns,
             \<lambda>(s, a, ns, r, d). r, \<lambda>(s, a, ns, r, d). d]"

text \<open>
  The storage of a \<^verbatim>\<open>TransitionBuffer\<close> against its fixed shapes: behind the leading
  axis the state and next-state arrays have \<^verbatim>\<open>state_shape\<close> and the action array has
  \<open>(1,)\<close> for discrete actions and \<^verbatim>\<open>action_shape\<close> otherwise. An empty fixed shape is
  left out: its empty array has shape \<open>(0,)\<close>, which \<^verbatim>\<open>th.cat\<close> skips.
\<close>

definition shapes_fixed :: "'a buffer \<Rightarrow> bool" where
  "shapes_fixed b \<longleftrightarrow>
     length (buffers b) = 5 \<and>
     (state_shape b \<noteq> [] \<longrightarrow>
        tl (shape (buffers b ! 0)) = state_shape b \<and> tl (shape (buffers b ! 2)) = state_shape b) \<and>
     (action_dtype b = Int64 \<longrightarrow> tl (shape (buffers b ! 1)) = [1]) \<and>
     (action_dtype b \<noteq> Int64 \<and> action_shape b \<noteq> [] \<longrightarrow>
        tl (shape (buffers b ! 1)) = action_shape b)"

text \<open>An array keeps its shape behind the leading axis, when that shape is not empty.\<close>

definition keeps :: "'a tensor list \<Rightarrow> 'a tensor list \<Rightarrow> bool" where
  "keeps bs cs \<longleftrightarrow> list_all2 (\<lambda>b c. tl (shape b) \<noteq> [] \<longrightarrow> tl (shape c) = tl (shape b)) bs cs"

text \<open>
  A \<^verbatim>\<open>TransitionBuffer\<close> of buffer size 3 for discrete actions and scalar states
  (\<^verbatim>\<open>state_shape = ()\<close>), as \<^verbatim>\<open>init [] [] Int64 3\<close> returns it.
\<close>

definition ex_scalar :: "int buffer" where
  "ex_scalar = clear \<lparr>state_shape = [], action_shape = [], action_dtype = Int64,
                        buffer_size = 3, buffers = [], ptr = 0, size_b = 0, total_size = 0\<rparr>"

section \<open>Shapes after an insertion\<close>

lemma cat0_unsqueeze_shape:
  assumes "cat0 a (unsqueeze0 n) = Inr c"
  shows "shape a \<noteq> [] \<and> shape c \<noteq> [] \<and> leading c = leading a + 1"
  using assms
  by (auto simp: cat0_def unsqueeze0_def leading_def split: if_splits)

lemma cat_all_shape:
  assumes "cat_all bs ns = Inr cs" and "length ns = length bs"
  shows "list_all2 (\<lambda>b c. shape b \<noteq> [] \<and> shape c \<noteq> [] \<and> leading c = leading b + 1) bs cs"
  using assms
proof (induction bs ns arbitrary: cs rule: cat_all.induct)
  case (1 bs)
  then show ?case by simp
next
  case (2 n ns)
  then show ?case by simp
next
  case (3 b bs n ns)
  then show ?case
    by (auto split: sum.splits dest: cat0_unsqueeze_shape)
qed

lemma setitem_shape: "setitem t p v = Inr c \<Longrightarrow> shape c = shape t"
  by (auto simp: setitem_def Let_def split: list.splits if_splits option.splits)

lemma overwrite_all_shape: "overwrite_all bs ns p = (r, cs) \<Longrightarrow> map shape cs = map shape bs"
proof (induction bs ns p arbitrary: r cs rule: overwrite_all.induct)
  case (1 b bs n ns p)
  then show ?case
    by (auto split: sum.splits prod.splits dest: setitem_shape)
qed auto

lemma setitem_empty: "shape t \<noteq> [] \<Longrightarrow> leading t = 0 \<Longrightarrow> \<exists>e. setitem t 0 v = Inl e"
  by (cases "shape t") (auto simp: setitem_def leading_def)

lemma overwrite_all_empty:
  assumes "bs \<noteq> []" "ns \<noteq> []" "shape (hd bs) \<noteq> []" "leading (hd bs) = 0"
  shows "fst (overwrite_all bs ns 0) \<noteq> None"
proof -
  obtain b bs' n ns' where "bs = b # bs'" "ns = n # ns'"
    using assms by (cases bs; cases ns) auto
  moreover obtain e where "setitem b 0 n = Inl e"
    using setitem_empty assms calculation by fastforce
  ultimately show ?thesis by simp
qed

lemma buffer_inv_all_lead:
  "buffer_inv k b \<Longrightarrow> all_lead (buffers b) (leading (hd (buffers b)))"
  by (simp add: buffer_inv_def all_lead_def)

lemma all_lead_hd: "all_lead ts L \<Longrightarrow> ts \<noteq> [] \<Longrightarrow> leading (hd ts) = L"
  by (cases ts) (auto simp: all_lead_def)

lemma cat_all_lead:
  assumes "cat_all bs ns = Inr cs" and "length ns = length bs" and "all_lead bs L"
  shows "all_lead cs (L + 1) \<and> length cs = length bs"
proof -
  have h: "list_all2 (\<lambda>b c. shape b \<noteq> [] \<and> shape c \<noteq> [] \<and> leading c = leading b + 1) bs cs"
    using assms(1,2) by (rule cat_all_shape)
  then have len: "length cs = length bs"
    by (simp add: list_all2_lengthD)
  have "\<forall>c\<in>set cs. shape c \<noteq> [] \<and> leading c = L + 1"
  proof
    fix c assume "c \<in> set cs"
    then obtain i where i: "i < length cs" "cs ! i = c"
      by (auto simp: in_set_conv_nth)
    then have "shape c \<noteq> [] \<and> leading c = leading (bs ! i) + 1"
      using h by (auto simp: list_all2_conv_all_nth)
    moreover have "bs ! i \<in> set bs" using i len by simp
    ultimately show "shape c \<noteq> [] \<and> leading c = L + 1"
      using assms(3) by (simp add: all_lead_def)
  qed
  then show ?thesis using len by (simp add: all_lead_def)
qed

lemma map_shape_all_lead:
  assumes "map shape cs = map shape bs"
  shows "all_lead cs L = all_lead bs L" and "length cs = length bs"
proof -
  show "length cs = length bs"
    using assms by (rule map_eq_imp_length_eq)
  show "all_lead cs L = all_lead bs L"
    using assms
  proof (induction cs arbitrary: bs)
    case Nil
    then show ?case by (simp add: all_lead_def)
  next
    case (Cons c cs)
    then obtain b bs' where bs: "bs = b # bs'" "shape c = shape b" "map shape cs = map shape bs'"
      by (cases bs) auto
    have "all_lead cs L = all_lead bs' L"
      using Cons.IH bs(3) by simp
    then show ?case
      using bs(1,2) by (simp add: all_lead_def leading_def)
  qed
qed

lemma buffer_invI:
  assumes "length (buffers b) = k" "0 < k" "0 \<le> total_size b" "all_lead (buffers b) L"
    and "if 1 \<le> buffer_size b
      then size_b b = min (total_size b) (buffer_size b) \<and>
           int L = min (total_size b) (buffer_size b + 1) \<and>
           ptr b = total_size b mod buffer_size b
      else total_size b = 0 \<and> size_b b = 0 \<and> ptr b = 0 \<and> (buffer_size b < 0 \<longrightarrow> L = 0)"
  shows "buffer_inv k b"
proof -
  have ne: "buffers b \<noteq> []" using assms(1,2) by auto
  have "leading (hd (buffers b)) = L"
    using assms(4) ne by (rule all_lead_hd)
  then show ?thesis
    using assms unfolding buffer_inv_def all_lead_def by simp
qed

lemma advance_inv:
  assumes "length (buffers b) = k" "0 < k" "0 \<le> total_size b" "all_lead (buffers b) L"
    and "if 1 \<le> buffer_size b
      then size_b b = min (total_size b) (buffer_size b) \<and>
           int L = min (total_size b + 1) (buffer_size b + 1) \<and>
           ptr b = total_size b mod buffer_size b
      else buffer_size b = 0 \<and> total_size b = 0 \<and> size_b b = 0 \<and> ptr b = 0"
  shows "buffer_inv k (snd (advance b))"
proof (cases "1 \<le> buffer_size b")
  case True
  let ?b' = "b\<lparr>ptr := (ptr b + 1) mod buffer_size b,
                 size_b := min (size_b b + 1) (buffer_size b),
                 total_size := total_size b + 1\<rparr>"
  have adv: "snd (advance b) = ?b'"
    using True by (simp add: advance_def)
  have "(total_size b mod buffer_size b + 1) mod buffer_size b = (total_size b + 1) mod buffer_size b"
    by (simp add: mod_add_left_eq)
  then have "buffer_inv k ?b'"
    using assms True by (intro buffer_invI[where L = L]) (auto simp: min_def)
  then show ?thesis using adv by simp
next
  case False
  then have "snd (advance b) = b"
    using assms(5) by (simp add: advance_def)
  moreover have "buffer_inv k b"
    using assms False by (intro buffer_invI[where L = L]) auto
  ultimately show ?thesis by simp
qed

lemma push_inv:
  assumes inv: "buffer_inv k b" and len: "length nt = k"
  shows "buffer_inv k (snd (push nt b))"
proof -
  let ?L = "leading (hd (buffers b))"
  have lead: "all_lead (buffers b) ?L"
    using inv by (rule buffer_inv_all_lead)
  have k: "length (buffers b) = k" "0 < k" "0 \<le> total_size b"
    using inv by (simp_all add: buffer_inv_def)
  have cnt: "if 1 \<le> buffer_size b
      then size_b b = min (total_size b) (buffer_size b) \<and>
           int ?L = min (total_size b) (buffer_size b + 1) \<and>
           ptr b = total_size b mod buffer_size b
      else total_size b = 0 \<and> size_b b = 0 \<and> ptr b = 0 \<and> (buffer_size b < 0 \<longrightarrow> ?L = 0)"
    using inv by (simp add: buffer_inv_def)
  show ?thesis
  proof (cases "total_size b \<le> buffer_size b")
    case app: True
    show ?thesis
    proof (cases "cat_all (buffers b) nt")
      case (Inl e)
      then show ?thesis using app inv by (simp add: push_def)
    next
      case (Inr cs)
      then have cs: "all_lead cs (?L + 1)" "length cs = k"
        using cat_all_lead[OF Inr _ lead] len k by auto
      have "buffer_inv k (snd (advance (b\<lparr>buffers := cs\<rparr>)))"
        using cs k cnt app by (intro advance_inv[where L = "?L + 1"]) (auto simp: min_def split: if_splits)
      then show ?thesis using app Inr by (simp add: push_def)
    qed
  next
    case ovw: False
    obtain r cs where oc: "overwrite_all (buffers b) nt (ptr b) = (r, cs)"
      by (cases "overwrite_all (buffers b) nt (ptr b)")
    have sh: "all_lead cs ?L" "length cs = k"
      using map_shape_all_lead[OF overwrite_all_shape[OF oc]] lead k by auto
    show ?thesis
    proof (cases r)
      case (Some e)
      have "buffer_inv k (b\<lparr>buffers := cs\<rparr>)"
        using sh k cnt by (intro buffer_invI[where L = ?L]) auto
      then show ?thesis using ovw oc Some by (simp add: push_def)
    next
      case None
      have pos: "1 \<le> buffer_size b"
      proof (rule ccontr)
        assume "\<not> 1 \<le> buffer_size b"
        then have z: "ptr b = 0" "?L = 0" "buffer_size b < 0"
          using cnt ovw by auto
        have "buffers b \<noteq> []" "nt \<noteq> []" using k len by auto
        moreover have "shape (hd (buffers b)) \<noteq> []"
          using lead \<open>buffers b \<noteq> []\<close> by (cases "buffers b") (auto simp: all_lead_def)
        ultimately have "fst (overwrite_all (buffers b) nt 0) \<noteq> None"
          using z by (intro overwrite_all_empty) auto
        then show False using oc None z by simp
      qed
      have "buffer_inv k (snd (advance (b\<lparr>buffers := cs\<rparr>)))"
        using sh k cnt ovw pos by (intro advance_inv[where L = ?L]) (auto simp: min_def)
      then show ?thesis using ovw oc None by (simp add: push_def)
    qed
  qed
qed

section \<open>The invariant holds in every reachable state\<close>

lemma zeros_lead: "shape (zeros (0 # sh)) \<noteq> [] \<and> leading (zeros (0 # sh)) = 0"
  by (simp add: zeros_def leading_def)

lemma clear_inv: "buffer_inv 5 (clear b)"
  by (simp add: buffer_inv_def clear_def zeros_def leading_def)

lemma dagger_clear_inv: "buffer_inv 2 (dagger_clear b)"
  by (simp add: buffer_inv_def dagger_clear_def zeros_def leading_def)

lemma insert_transition_inv:
  "buffer_inv 5 b \<Longrightarrow> buffer_inv 5 (snd (insert_transition s a ns r d b))"
  by (simp add: insert_transition_def Let_def push_inv)

lemma dagger_insert_transition_inv:
  "buffer_inv 2 b \<Longrightarrow> buffer_inv 2 (snd (dagger_insert_transition s a b))"
  by (simp add: dagger_insert_transition_def Let_def push_inv)

lemma reachable_inv: "reachable b \<Longrightarrow> buffer_inv 5 b"
proof (induction rule: reachable.induct)
  case (reach_init ss as dt bs b)
  then show ?case by (auto simp: init_def clear_inv split: if_splits)
next
  case (reach_insert b s a ns r d)
  from reach_insert.IH show ?case by (rule insert_transition_inv)
next
  case (reach_clear b)
  show ?case by (rule clear_inv)
qed

lemma dagger_reachable_inv: "dagger_reachable b \<Longrightarrow> buffer_inv 2 b"
proof (induction rule: dagger_reachable.induct)
  case (dreach_init ss as dt bs b)
  then show ?case by (auto simp: dagger_init_def dagger_clear_inv split: if_splits)
next
  case (dreach_insert b s a)
  from dreach_insert.IH show ?case by (rule dagger_insert_transition_inv)
next
  case (dreach_clear b)
  show ?case by (rule dagger_clear_inv)
qed

lemma push_success_positive:
  assumes "buffer_inv k b" "length nt = k" "push nt b = (None, b')"
  shows "1 \<le> buffer_size b'"
proof (rule ccontr)
  assume neg: "\<not> 1 \<le> buffer_size b'"
  have inv': "buffer_inv k b'"
    using push_inv[OF assms(1,2)] assms(3) by simp
  then have t0: "total_size b' = 0"
    using neg by (simp add: buffer_inv_def)
  have "total_size b' = total_size b + 1"
    using assms(3)
    by (auto simp: push_def advance_def split: if_splits sum.splits prod.splits option.splits)
  moreover have "0 \<le> total_size b"
    using assms(1) by (simp add: buffer_inv_def)
  ultimately show False using t0 by simp
qed

lemma push_success_count:
  assumes "buffer_inv k b" "length nt = k" "push nt b = (None, b')"
  shows "size_b b' = min (total_size b') (buffer_size b')"
proof -
  have "buffer_inv k b'"
    using push_inv[OF assms(1,2)] assms(3) by simp
  moreover have "1 \<le> buffer_size b'"
    using assms by (rule push_success_positive)
  ultimately show ?thesis by (simp add: buffer_inv_def)
qed

text \<open>
  C3. After every insertion that returns, on a \<^verbatim>\<open>TransitionBuffer\<close> or a
  \<^verbatim>\<open>DAggerBuffer\<close> in any state the program can reach, the size is the minimum of
  the total and the buffer size. For a buffer built without a size the buffer size is
  \<^verbatim>\<open>sys.maxsize\<close>, and the size equals the total as long as the total is at most
  \<^verbatim>\<open>sys.maxsize\<close>, which is every total a machine can count up to.
\<close>

theorem capacity_invariant:
  assumes "reachable b \<and> insert_transition s a ns r d b = (None, b') \<or>
           dagger_reachable b \<and> dagger_insert_transition s a b = (None, b')"
  shows "size_b b' = min (total_size b') (buffer_size b') \<and>
         (buffer_size b' = maxsize \<and> total_size b' \<le> maxsize \<longrightarrow> size_b b' = total_size b')"
proof -
  have "size_b b' = min (total_size b') (buffer_size b')"
    using assms
  proof
    assume h: "reachable b \<and> insert_transition s a ns r d b = (None, b')"
    then have "buffer_inv 5 b" by (simp add: reachable_inv)
    then show ?thesis
      using h by (intro push_success_count[where k = 5 and b = b])
        (auto simp: insert_transition_def Let_def)
  next
    assume h: "dagger_reachable b \<and> dagger_insert_transition s a b = (None, b')"
    then have "buffer_inv 2 b" by (simp add: dagger_reachable_inv)
    then show ?thesis
      using h by (intro push_success_count[where k = 2 and b = b])
        (auto simp: dagger_insert_transition_def Let_def)
  qed
  then show ?thesis by simp
qed

section \<open>Sampling\<close>

lemma index_list_ok:
  assumes "shape t \<noteq> []" "\<forall>i\<in>set idx. i < leading t"
  shows "index_list t idx = Inr (Tensor (length idx # tl (shape t)) (concat (map (row t) idx)))"
  using assms by (cases "shape t") (auto simp: index_list_def leading_def list_all_iff)

lemma gather_all_ok:
  assumes "all_lead ts L" "\<forall>i\<in>set idx. i < L"
  shows "gather_all ts idx =
         Inr (map (\<lambda>t. Tensor (length idx # tl (shape t)) (concat (map (row t) idx))) ts)"
  using assms
proof (induction ts)
  case Nil
  then show ?case by simp
next
  case (Cons t ts)
  then have "shape t \<noteq> []" "\<forall>i\<in>set idx. i < leading t" "all_lead ts L"
    by (auto simp: all_lead_def)
  then show ?case
    using Cons by (simp add: index_list_ok)
qed

lemma buffer_inv_size:
  assumes "buffer_inv k b"
  shows "0 \<le> size_b b \<and> size_b b \<le> int (leading (hd (buffers b)))"
  using assms by (auto simp: buffer_inv_def min_def split: if_splits)

lemma reachable_any_inv:
  "reachable b \<or> dagger_reachable b \<Longrightarrow> \<exists>k. buffer_inv k b"
  using reachable_inv dagger_reachable_inv by blast

lemma slice_to_length: "0 \<le> k \<Longrightarrow> int (length (slice_to xs k)) = min k (int (length xs))"
proof -
  assume "0 \<le> k"
  then have "int (min (length xs) (nat k)) = min k (int (length xs))"
    by linarith
  then show ?thesis
    using \<open>0 \<le> k\<close> by (simp add: slice_to_def)
qed

lemma slice_to_set: "set (slice_to xs k) \<subseteq> set xs"
  by (auto simp: slice_to_def dest: in_set_takeD)

text \<open>
  C5. In any state the program can reach, \<^verbatim>\<open>sample(batch_size=k)\<close> with \<open>k \<ge> 0\<close>
  returns, shuffled or not, one tensor per field, each of exactly \<open>min k size\<close> rows:
  no error and no padding when \<open>k\<close> exceeds the size. \<^verbatim>\<open>random.shuffle\<close> is any
  function that permutes the index list.
\<close>

theorem sample_size_bound:
  assumes "reachable b \<or> dagger_reachable b" and "0 \<le> k"
    and "shuffle \<longrightarrow> mset (rnd [0..<nat (size_b b)]) = mset [0..<nat (size_b b)]"
  shows "\<exists>gs. fst (sample rnd (Some k) shuffle b) = Inr gs \<and>
              length gs = length (buffers b) \<and>
              (\<forall>g\<in>set gs. shape g \<noteq> [] \<and> int (leading g) = min k (size_b b))"
proof -
  obtain n where inv: "buffer_inv n b"
    using assms(1) reachable_any_inv by blast
  let ?L = "leading (hd (buffers b))"
  let ?all = "[0..<nat (size_b b)]"
  let ?shuf = "if shuffle then rnd ?all else ?all"
  let ?sel = "slice_to ?shuf k"
  have lead: "all_lead (buffers b) ?L"
    using inv by (rule buffer_inv_all_lead)
  have sz: "0 \<le> size_b b" "size_b b \<le> int ?L"
    using buffer_inv_size[OF inv] by simp_all
  have m: "mset ?shuf = mset ?all"
    using assms(3) by simp
  then have "set ?shuf = set ?all"
    by (rule mset_eq_setD)
  then have "\<forall>i\<in>set ?sel. i < ?L"
    using slice_to_set[of ?shuf k] sz by auto
  then have g: "gather_all (buffers b) ?sel =
      Inr (map (\<lambda>t. Tensor (length ?sel # tl (shape t)) (concat (map (row t) ?sel))) (buffers b))"
    using lead by (intro gather_all_ok) auto
  have "length ?shuf = length ?all"
    using m by (rule mset_eq_length)
  then have "int (length ?sel) = min k (size_b b)"
    using slice_to_length[OF assms(2), of ?shuf] sz by simp
  then show ?thesis
    using g by (auto simp: sample_def Let_def leading_def)
qed

text \<open>
  C6. In any state the program can reach, \<^verbatim>\<open>sample(shuffle=False)\<close> without a batch
  size returns, for every field, the tensor made of the rows \<open>0, 1, \<dots>, size - 1\<close> of the
  storage, in this order.
\<close>

theorem sample_all_in_order:
  assumes "reachable b \<or> dagger_reachable b"
  shows "fst (sample rnd None False b) =
         Inr (map (\<lambda>t. Tensor (nat (size_b b) # tl (shape t))
                               (concat (map (row t) [0..<nat (size_b b)])))
                  (buffers b))"
proof -
  obtain n where inv: "buffer_inv n b"
    using assms reachable_any_inv by blast
  let ?L = "leading (hd (buffers b))"
  have "all_lead (buffers b) ?L"
    using inv by (rule buffer_inv_all_lead)
  moreover have "\<forall>i\<in>set [0..<nat (size_b b)]. i < ?L"
    using buffer_inv_size[OF inv] by auto
  ultimately have "gather_all (buffers b) [0..<nat (size_b b)] =
      Inr (map (\<lambda>t. Tensor (length [0..<nat (size_b b)] # tl (shape t))
                            (concat (map (row t) [0..<nat (size_b b)]))) (buffers b))"
    by (rule gather_all_ok)
  then show ?thesis
    by (simp add: sample_def)
qed

text \<open>
  C7. \<^verbatim>\<open>sample\<close> leaves the object as it found it, whatever the arguments and whether
  it returns or raises: the storage, the pointer, the size and the total are unchanged.
\<close>

theorem sample_does_not_mutate: "snd (sample rnd batch_size shuffle b) = b"
  by (simp add: sample_def Let_def)

section \<open>The scenario of the specification on the code\<close>

lemma ex_empty_init: "init [1] [] Int64 3 = Inr ex_empty"
  by (simp add: init_def ex_empty_def)

lemma ex_empty_reachable: "reachable ex_empty"
  using ex_empty_init by (rule reach_init)

lemma ex_insert_reachable: "reachable b \<Longrightarrow> reachable (snd (ex_insert k b))"
  unfolding ex_insert_def by (rule reach_insert)

lemma ex_three_reachable: "reachable ex_three"
  unfolding ex_three_def by (intro ex_insert_reachable ex_empty_reachable)

lemma ex_four_reachable: "reachable ex_four"
  unfolding ex_four_def by (intro ex_insert_reachable ex_three_reachable)

lemma ex_three_value:
  "ex_three = \<lparr>state_shape = [1], action_shape = [], action_dtype = Int64, buffer_size = 3,
      buffers = [Tensor [3, 1] [0, 1, 2], Tensor [3, 1] [0, 0, 0], Tensor [3, 1] [1, 2, 3],
                 Tensor [3, 1] [1, 1, 1], Tensor [3, 1] [0, 0, 0]],
      ptr = 0, size_b = 3, total_size = 3\<rparr>"
  by code_simp

lemma ex_four_step:
  "ex_insert 3 ex_three = (None, \<lparr>state_shape = [1], action_shape = [], action_dtype = Int64, buffer_size = 3,
      buffers = [Tensor [4, 1] [0, 1, 2, 3], Tensor [4, 1] [0, 0, 0, 0], Tensor [4, 1] [1, 2, 3, 4],
                 Tensor [4, 1] [1, 1, 1, 1], Tensor [4, 1] [0, 0, 0, 0]],
      ptr = 1, size_b = 3, total_size = 4\<rparr>)"
  by code_simp

lemma ex_unbounded_init: "init [1] [] Int64 (- 1) = Inr ex_unbounded"
  by (simp add: init_def ex_unbounded_def)

lemma ex_unbounded_reachable: "reachable ex_unbounded"
  using ex_unbounded_init by (rule reach_init)

lemma ex_dagger_init: "dagger_init [1] [] Int64 3 = Inr ex_dagger"
  by (simp add: dagger_init_def ex_dagger_def)

lemma ex_dagger_reachable: "dagger_reachable ex_dagger"
  using ex_dagger_init by (rule dreach_init)

theorem capacity_invariant_witness:
  "(reachable ex_unbounded \<and>
    fst (ex_insert 0 ex_unbounded) = None \<and>
    buffer_size (snd (ex_insert 0 ex_unbounded)) = maxsize \<and>
    total_size (snd (ex_insert 0 ex_unbounded)) \<le> maxsize \<and>
    size_b (snd (ex_insert 0 ex_unbounded)) = 1 \<and>
    total_size (snd (ex_insert 0 ex_unbounded)) = 1) \<and>
   (dagger_reachable ex_dagger \<and>
    fst (dagger_insert_transition (Tensor [1] [7]) (Tensor [] [0]) ex_dagger) = None \<and>
    size_b (snd (dagger_insert_transition (Tensor [1] [7]) (Tensor [] [0]) ex_dagger)) =
      min (total_size (snd (dagger_insert_transition (Tensor [1] [7]) (Tensor [] [0]) ex_dagger))) 3)"
proof -
  let ?b = "snd (ex_insert 0 ex_unbounded)"
  let ?d = "snd (dagger_insert_transition (Tensor [1] [7]) (Tensor [] [0]) ex_dagger)"
  have ok: "fst (ex_insert 0 ex_unbounded) = None"
    by code_simp
  then have step: "insert_transition (Tensor [1] [0]) (Tensor [] [0]) (Tensor [1] [0 + 1])
       (Tensor [] [1]) (Tensor [] [0]) ex_unbounded = (None, ?b)"
    by (simp add: ex_insert_def prod_eq_iff)
  have cap: "buffer_size ?b = maxsize" and tot: "total_size ?b = 1"
    by code_simp+
  have le: "total_size ?b \<le> maxsize"
    using tot by (simp add: maxsize_def)
  have "reachable ex_unbounded \<and>
          insert_transition (Tensor [1] [0]) (Tensor [] [0]) (Tensor [1] [0 + 1])
            (Tensor [] [1]) (Tensor [] [0]) ex_unbounded = (None, ?b) \<or>
        dagger_reachable ex_unbounded \<and>
          dagger_insert_transition (Tensor [1] [0]) (Tensor [] [0]) ex_unbounded = (None, ?b)"
    using ex_unbounded_reachable step by simp
  then have "size_b ?b = total_size ?b"
    using capacity_invariant cap le by blast
  then have t: "size_b ?b = 1" using tot by simp
  have dok: "fst (dagger_insert_transition (Tensor [1] [7]) (Tensor [] [0]) ex_dagger) = None"
    by code_simp
  then have dstep: "dagger_insert_transition (Tensor [1] [7]) (Tensor [] [0]) ex_dagger = (None, ?d)"
    by (simp add: prod_eq_iff)
  have dcap: "buffer_size ?d = 3"
    by code_simp
  have "reachable ex_dagger \<and>
          insert_transition (Tensor [1] [7]) (Tensor [] [0]) (Tensor [1] [8])
            (Tensor [] [1]) (Tensor [] [0]) ex_dagger = (None, ?d) \<or>
        dagger_reachable ex_dagger \<and>
          dagger_insert_transition (Tensor [1] [7]) (Tensor [] [0]) ex_dagger = (None, ?d)"
    using ex_dagger_reachable dstep by simp
  then have "size_b ?d = min (total_size ?d) (buffer_size ?d)"
    using capacity_invariant by blast
  then have d: "size_b ?d = min (total_size ?d) 3"
    using dcap by simp
  show ?thesis
    using ex_unbounded_reachable ok cap le t tot ex_dagger_reachable dok d by blast
qed

text \<open>
  C1. The scenario on the code: after the four insertions the state storage holds the
  four rows \<open>[0], [1], [2], [3]\<close>, slot 0 still holding \<open>[0]\<close>, the size is 3 and the
  total is 4; an unshuffled full sample returns the states \<open>[0], [1], [2]\<close>.
\<close>

theorem scenario_four_insertions:
  "buffers ex_four ! 0 = Tensor [4, 1] [0, 1, 2, 3] \<and>
   size_b ex_four = 3 \<and> total_size ex_four = 4 \<and> ptr ex_four = 1 \<and>
   map_sum id (\<lambda>gs. gs ! 0) (fst (sample id None False ex_four)) = Inr (Tensor [3, 1] [0, 1, 2])"
  by code_simp

text \<open>
  C2. On the code, after four insertions into a buffer of size 3 every storage array
  has four rows while the size is 3.
\<close>

theorem scenario_leading_length:
  "map leading (buffers ex_four) = [4, 4, 4, 4, 4] \<and> size_b ex_four = 3"
  by code_simp

theorem sample_size_bound_witness:
  "reachable ex_four \<and> (0::int) \<le> 2 \<and>
   mset (rev [0..<nat (size_b ex_four)]) = mset [0..<nat (size_b ex_four)] \<and>
   (\<exists>gs. fst (sample rev (Some 2) True ex_four) = Inr gs \<and> length gs = 5 \<and>
         (\<forall>g\<in>set gs. shape g \<noteq> [] \<and> int (leading g) = 2))"
proof -
  have m: "True \<longrightarrow> mset (rev [0..<nat (size_b ex_four)]) = mset [0..<nat (size_b ex_four)]"
    by simp
  have l: "length (buffers ex_four) = 5" and z: "size_b ex_four = 3"
    by code_simp+
  show ?thesis
    using sample_size_bound[of ex_four 2 True rev, OF disjI1, OF ex_four_reachable _ m]
      ex_four_reachable l z by simp
qed

theorem sample_all_in_order_witness:
  "reachable ex_four \<and>
   fst (sample id None False ex_four) =
     Inr [Tensor [3, 1] [0, 1, 2], Tensor [3, 1] [0, 0, 0], Tensor [3, 1] [1, 2, 3],
          Tensor [3, 1] [1, 1, 1], Tensor [3, 1] [0, 0, 0]]"
proof -
  have "map (\<lambda>t. Tensor (nat (size_b ex_four) # tl (shape t))
                        (concat (map (row t) [0..<nat (size_b ex_four)]))) (buffers ex_four) =
        [Tensor [3, 1] [0, 1, 2], Tensor [3, 1] [0, 0, 0], Tensor [3, 1] [1, 2, 3],
          Tensor [3, 1] [1, 1, 1], Tensor [3, 1] [0, 0, 0]]"
    by code_simp
  then show ?thesis
    using sample_all_in_order[of ex_four id, OF disjI1, OF ex_four_reachable] ex_four_reachable
    by simp
qed

section \<open>Inserting a dataset\<close>

lemma getitem_has_rows: "has_rows a n \<Longrightarrow> i < n \<Longrightarrow> getitem a i = Inr (nth_row a i)"
  by (cases "shape a") (auto simp: has_rows_def getitem_def nth_row_def)

lemma insert_rows_seq:
  assumes "has_rows st n" "has_rows ac n" "has_rows nx n" "has_rows rw n" "has_rows dn n"
    and "\<forall>i\<in>set is. i < n"
  shows "insert_rows is st ac nx rw dn b =
         seq_insert (map (\<lambda>i. (nth_row st i, nth_row ac i, nth_row nx i, nth_row rw i, nth_row dn i)) is) b"
  using assms(6)
proof (induction "is" arbitrary: b)
  case Nil
  then show ?case by simp
next
  case (Cons i "is")
  then have i: "i < n" and rest: "\<forall>j\<in>set is. j < n"
    by simp_all
  have g: "getitem st i = Inr (nth_row st i)" "getitem ac i = Inr (nth_row ac i)"
    "getitem nx i = Inr (nth_row nx i)" "getitem rw i = Inr (nth_row rw i)"
    "getitem dn i = Inr (nth_row dn i)"
    using assms(1-5) i by (simp_all add: getitem_has_rows)
  show ?case
    using Cons.IH[OF rest] g by (simp split: prod.splits option.splits)
qed

text \<open>
  C9. For a bundle that has the five keys, each an array of \<open>n\<close> rows,
  \<^verbatim>\<open>insert_dataset\<close> leaves the object, and raises or returns, exactly as \<open>n\<close>
  sequential \<^verbatim>\<open>insert_transition\<close> calls on the rows in order do.
\<close>

theorem insert_dataset_sequential:
  assumes "dataset ''observations'' = Some observations"
    and "dataset ''actions'' = Some actions"
    and "dataset ''next_observations'' = Some next_observations"
    and "dataset ''rewards'' = Some rewards"
    and "dataset ''terminals'' = Some terminals"
    and "has_rows observations n" and "has_rows actions n" and "has_rows next_observations n"
    and "has_rows rewards n" and "has_rows terminals n"
  shows "insert_dataset dataset b =
         seq_insert (dataset_rows observations actions next_observations rewards terminals n) b"
proof -
  obtain rs where "shape observations = n # rs"
    using assms(6) by (cases "shape observations") (auto simp: has_rows_def)
  then have "insert_batch observations actions next_observations rewards terminals b =
        insert_rows [0..<n] observations actions next_observations rewards terminals b"
    by (simp add: insert_batch_def)
  also have "\<dots> = seq_insert (dataset_rows observations actions next_observations rewards terminals n) b"
    unfolding dataset_rows_def
    using assms(6-10) by (intro insert_rows_seq[where n = n]) auto
  finally show ?thesis
    using assms(1-5) by (simp add: insert_dataset_def)
qed

theorem insert_dataset_sequential_witness:
  "ex_dataset ''observations'' = Some (Tensor [2, 1] [5, 6]) \<and>
   ex_dataset ''actions'' = Some (Tensor [2] [0, 1]) \<and>
   ex_dataset ''next_observations'' = Some (Tensor [2, 1] [6, 7]) \<and>
   ex_dataset ''rewards'' = Some (Tensor [2] [1, 1]) \<and>
   ex_dataset ''terminals'' = Some (Tensor [2] [0, 1]) \<and>
   has_rows (Tensor [2, 1] [5, 6 :: int]) 2 \<and> has_rows (Tensor [2] [0, 1 :: int]) 2 \<and>
   has_rows (Tensor [2, 1] [6, 7 :: int]) 2 \<and> has_rows (Tensor [2] [1, 1 :: int]) 2 \<and>
   insert_dataset ex_dataset ex_empty =
     seq_insert [(Tensor [1] [5], Tensor [] [0], Tensor [1] [6], Tensor [] [1], Tensor [] [0]),
                 (Tensor [1] [6], Tensor [] [1], Tensor [1] [7], Tensor [] [1], Tensor [] [1])]
       ex_empty"
proof -
  have k: "ex_dataset ''observations'' = Some (Tensor [2, 1] [5, 6])"
    "ex_dataset ''actions'' = Some (Tensor [2] [0, 1])"
    "ex_dataset ''next_observations'' = Some (Tensor [2, 1] [6, 7])"
    "ex_dataset ''rewards'' = Some (Tensor [2] [1, 1])"
    "ex_dataset ''terminals'' = Some (Tensor [2] [0, 1])"
    by (simp_all add: ex_dataset_def)
  have h: "has_rows (Tensor [2, 1] [5, 6 :: int]) 2" "has_rows (Tensor [2] [0, 1 :: int]) 2"
    "has_rows (Tensor [2, 1] [6, 7 :: int]) 2" "has_rows (Tensor [2] [1, 1 :: int]) 2"
    by (simp_all add: has_rows_def)
  have r: "dataset_rows (Tensor [2, 1] [5, 6 :: int]) (Tensor [2] [0, 1]) (Tensor [2, 1] [6, 7])
             (Tensor [2] [1, 1]) (Tensor [2] [0, 1]) 2 =
           [(Tensor [1] [5], Tensor [] [0], Tensor [1] [6], Tensor [] [1], Tensor [] [0]),
            (Tensor [1] [6], Tensor [] [1], Tensor [1] [7], Tensor [] [1], Tensor [] [1])]"
    by code_simp
  show ?thesis
    using insert_dataset_sequential[OF k h(1,2,3,4) h(2), of ex_empty] k h r by simp
qed

section \<open>A buffer size of zero\<close>

lemma cat0_error: "cat0 a b = Inl e \<Longrightarrow> e = RuntimeError"
  by (auto simp: cat0_def split: if_splits)

lemma cat_all_error: "cat_all bs ns = Inl e \<Longrightarrow> length ns \<le> length bs \<Longrightarrow> e = RuntimeError"
proof (induction bs ns rule: cat_all.induct)
  case (3 b bs n ns)
  then show ?case
    by (auto split: sum.splits dest: cat0_error)
qed auto

lemma cat0_zeros_fit:
  "cat0 (zeros (0 # sh)) (unsqueeze0 t) =
     (if shape t = sh \<or> sh = [] then Inr (unsqueeze0 t) else Inl RuntimeError)" for t :: "'a::zero tensor"
  by (auto simp: cat0_def zeros_def unsqueeze0_def)

lemma push_zero_size:
  assumes "buffer_size b = 0" "total_size b = 0" "length nt \<le> length (buffers b)"
  shows "fst (push nt b) = Some RuntimeError \<or> fst (push nt b) = Some ZeroDivisionError"
    and "cat_all (buffers b) nt = Inr cs \<Longrightarrow> fst (push nt b) = Some ZeroDivisionError"
  using assms
  by (auto simp: push_def advance_def split: sum.splits dest: cat_all_error)

text \<open>
  C10. With a supported dtype, the constructor of either class accepts a buffer size of
  0 and keeps it as it is (it is not turned into \<^verbatim>\<open>sys.maxsize\<close>). The first
  \<^verbatim>\<open>insert_transition\<close> on the new object never returns: a transition of the fixed
  shapes is concatenated and the call then raises the division by zero of the pointer
  update; any other transition raises there or earlier, in the concatenation.
\<close>

theorem zero_buffer_size:
  fixes s :: "'a::zero tensor"
  assumes "dt = Int64 \<or> dt = Float32"
  shows "\<exists>b c. init ss as dt 0 = Inr b \<and> buffer_size b = 0 \<and>
           (fst (insert_transition s a ns r d b) = Some RuntimeError \<or>
            fst (insert_transition s a ns r d b) = Some ZeroDivisionError) \<and>
           (shape s = ss \<and> shape a = (if dt = Int64 then [] else as) \<and> shape ns = ss \<and>
            shape r = [] \<and> shape d = []
            \<longrightarrow> fst (insert_transition s a ns r d b) = Some ZeroDivisionError) \<and>
           dagger_init ss as dt 0 = Inr c \<and> buffer_size c = 0 \<and>
           (fst (dagger_insert_transition s a c) = Some RuntimeError \<or>
            fst (dagger_insert_transition s a c) = Some ZeroDivisionError) \<and>
           (shape s = ss \<and> shape a = (if dt = Int64 then [] else as)
            \<longrightarrow> fst (dagger_insert_transition s a c) = Some ZeroDivisionError)"
proof -
  let ?r = "\<lparr>state_shape = ss, action_shape = as, action_dtype = dt, buffer_size = 0,
             buffers = [], ptr = 0, size_b = 0, total_size = (0::int)\<rparr> :: 'a buffer"
  let ?b = "clear ?r"
  let ?c = "dagger_clear ?r"
  let ?a = "if dt = Int64 then np_list1 a else a"
  have ib: "init ss as dt 0 = Inr ?b" and ic: "dagger_init ss as dt 0 = Inr ?c"
    using assms by (auto simp: init_def dagger_init_def)
  have zb: "buffer_size ?b = 0" "total_size ?b = 0" "length (buffers ?b) = 5"
    and zc: "buffer_size ?c = 0" "total_size ?c = 0" "length (buffers ?c) = 2"
    by (simp_all add: clear_def dagger_clear_def)
  have tb: "insert_transition s a ns r d ?b = push [s, ?a, ns, np_list1 r, np_list1 d] ?b"
    by (simp add: insert_transition_def clear_def)
  have tc: "dagger_insert_transition s a ?c = push [s, ?a] ?c"
    by (simp add: dagger_insert_transition_def dagger_clear_def)
  have e1: "fst (insert_transition s a ns r d ?b) = Some RuntimeError \<or>
            fst (insert_transition s a ns r d ?b) = Some ZeroDivisionError"
    unfolding tb using zb by (intro push_zero_size(1)) simp_all
  have e2: "fst (dagger_insert_transition s a ?c) = Some RuntimeError \<or>
            fst (dagger_insert_transition s a ?c) = Some ZeroDivisionError"
    unfolding tc using zc by (intro push_zero_size(1)) simp_all
  have f1: "fst (insert_transition s a ns r d ?b) = Some ZeroDivisionError"
    if "shape s = ss \<and> shape a = (if dt = Int64 then [] else as) \<and> shape ns = ss \<and>
        shape r = [] \<and> shape d = []"
  proof -
    have "\<exists>cs. cat_all (buffers ?b) [s, ?a, ns, np_list1 r, np_list1 d] = Inr cs"
      using that by (auto simp: clear_def cat0_zeros_fit np_list1_def)
    then show ?thesis
      unfolding tb using zb push_zero_size(2)[of ?b "[s, ?a, ns, np_list1 r, np_list1 d]"] by auto
  qed
  have f2: "fst (dagger_insert_transition s a ?c) = Some ZeroDivisionError"
    if "shape s = ss \<and> shape a = (if dt = Int64 then [] else as)"
  proof -
    have "\<exists>cs. cat_all (buffers ?c) [s, ?a] = Inr cs"
      using that by (auto simp: dagger_clear_def cat0_zeros_fit np_list1_def)
    then show ?thesis
      unfolding tc using zc push_zero_size(2)[of ?c "[s, ?a]"] by auto
  qed
  show ?thesis
    using ib ic zb(1) zc(1) e1 e2 f1 f2 by blast
qed

theorem zero_buffer_size_witness:
  "\<exists>b c. init [1] [] Int64 0 = Inr b \<and> buffer_size b = 0 \<and>
      fst (insert_transition (Tensor [1] [5 :: int]) (Tensor [] [0]) (Tensor [1] [6])
             (Tensor [] [1]) (Tensor [] [0]) b) = Some ZeroDivisionError \<and>
      dagger_init [1] [] Int64 0 = Inr c \<and> buffer_size c = 0 \<and>
      fst (dagger_insert_transition (Tensor [1] [5 :: int]) (Tensor [] [0]) c) = Some ZeroDivisionError"
  using zero_buffer_size[of Int64 "[1]" "[]" "Tensor [1] [5 :: int]" "Tensor [] [0]"
      "Tensor [1] [6]" "Tensor [] [1]" "Tensor [] [0]"]
  by simp blast

section \<open>Buffers without a buffer size\<close>

lemma cat0_elems:
  assumes "cat0 a (unsqueeze0 n) = Inr c" "shape a = [0] \<longrightarrow> elems a = []"
  shows "elems c = elems a @ elems n \<and> shape c \<noteq> [] \<and> shape c \<noteq> [0]"
  using assms by (auto simp: cat0_def unsqueeze0_def split: if_splits)

lemma cat_all_elems:
  assumes "cat_all bs ns = Inr cs" "length ns = length bs" "plain bs"
  shows "map elems cs = map2 (@) (map elems bs) (map elems ns) \<and> plain cs"
  using assms
proof (induction bs ns arbitrary: cs rule: cat_all.induct)
  case (1 bs)
  then show ?case by (simp add: plain_def)
next
  case (2 n ns)
  then show ?case by simp
next
  case (3 b bs n ns)
  from "3.prems"(1) obtain c cs' where c: "cat0 b (unsqueeze0 n) = Inr c"
    and cs': "cat_all bs ns = Inr cs'" and cs: "cs = c # cs'"
    by (auto split: sum.splits)
  have pb: "shape b = [0] \<longrightarrow> elems b = []" and pbs: "plain bs"
    using "3.prems"(3) by (simp_all add: plain_def)
  have "elems c = elems b @ elems n \<and> shape c \<noteq> [] \<and> shape c \<noteq> [0]"
    using c pb by (rule cat0_elems)
  moreover have "map elems cs' = map2 (@) (map elems bs) (map elems ns) \<and> plain cs'"
    using "3.IH"[OF c cs' _ pbs] "3.prems"(2) by simp
  ultimately show ?case
    using cs by (simp add: plain_def)
qed

lemma seq_insert_append:
  "seq_insert (xs @ ys) b = (None, b') \<Longrightarrow>
   \<exists>bm. seq_insert xs b = (None, bm) \<and> seq_insert ys bm = (None, b')"
proof (induction xs arbitrary: b)
  case Nil
  then show ?case by simp
next
  case (Cons x xs)
  obtain s a ns r d where x: "x = (s, a, ns, r, d)"
    by (cases x)
  from Cons.prems obtain b1 where b1: "insert_transition s a ns r d b = (None, b1)"
    and rest: "seq_insert (xs @ ys) b1 = (None, b')"
    unfolding x by (auto split: prod.splits option.splits)
  from Cons.IH[OF rest] show ?case
    unfolding x using b1 by simp
qed

lemma insert_append_step:
  assumes "insert_transition s a ns r d b = (None, b')" "total_size b \<le> buffer_size b"
    "length (buffers b) = 5" "plain (buffers b)"
  shows "buffer_size b' = buffer_size b \<and> total_size b' = total_size b + 1 \<and>
         size_b b' = min (size_b b + 1) (buffer_size b) \<and>
         length (buffers b') = 5 \<and> plain (buffers b') \<and>
         map elems (buffers b') =
           map2 (@) (map elems (buffers b)) [elems s, elems a, elems ns, elems r, elems d]"
proof -
  let ?nt = "[s, if action_dtype b = Int64 then np_list1 a else a, ns, np_list1 r, np_list1 d]"
  have p: "push ?nt b = (None, b')"
    using assms(1) by (simp add: insert_transition_def Let_def)
  then obtain cs where cs: "cat_all (buffers b) ?nt = Inr cs"
    and adv: "advance (b\<lparr>buffers := cs\<rparr>) = (None, b')"
    using assms(2) by (auto simp: push_def split: sum.splits)
  have "map elems cs = map2 (@) (map elems (buffers b)) (map elems ?nt) \<and> plain cs"
    using cs assms(3,4) by (intro cat_all_elems) auto
  moreover have "map elems ?nt = [elems s, elems a, elems ns, elems r, elems d]"
    by (simp add: np_list1_def)
  moreover have "length cs = 5"
    using cat_all_shape[OF cs] assms(3) by (auto dest: list_all2_lengthD)
  moreover have "b' = b\<lparr>buffers := cs, ptr := (ptr b + 1) mod buffer_size b,
                        size_b := min (size_b b + 1) (buffer_size b),
                        total_size := total_size b + 1\<rparr>"
    using adv by (auto simp: advance_def split: if_splits)
  ultimately show ?thesis by simp
qed

lemma length_five: "length xs = 5 \<Longrightarrow> \<exists>x0 x1 x2 x3 x4. xs = [x0, x1, x2, x3, x4]"
  by (auto simp: eval_nat_numeral length_Suc_conv)

lemma unbounded_run:
  assumes "seq_insert ts b = (None, b')" "buffer_size b = maxsize" "size_b b = total_size b"
    "total_size b + int (length ts) \<le> maxsize"
    "length (buffers b) = 5" "plain (buffers b)"
  shows "buffer_size b' = maxsize \<and> total_size b' = total_size b + int (length ts) \<and>
         size_b b' = total_size b' \<and>
         map elems (buffers b') = map2 (@) (map elems (buffers b)) (map (\<lambda>f. field_elems f ts) fields)"
  using assms
proof (induction ts arbitrary: b)
  case Nil
  then have "b' = b" by simp
  moreover obtain e0 e1 e2 e3 e4 where "map elems (buffers b) = [e0, e1, e2, e3, e4]"
    using length_five[of "map elems (buffers b)"] Nil.prems(5) by auto
  then have "map2 (@) (map elems (buffers b)) (map (\<lambda>f. field_elems f []) fields) = map elems (buffers b)"
    by (simp add: fields_def field_elems_def)
  ultimately show ?case using Nil by simp
next
  case (Cons t ts)
  obtain s a ns r d where t: "t = (s, a, ns, r, d)"
    by (cases t)
  from Cons.prems(1) obtain b1 where b1: "insert_transition s a ns r d b = (None, b1)"
    and rest: "seq_insert ts b1 = (None, b')"
    unfolding t by (auto split: prod.splits option.splits)
  have le: "total_size b \<le> buffer_size b"
    using Cons.prems(2,4) by simp
  have st: "buffer_size b1 = buffer_size b \<and> total_size b1 = total_size b + 1 \<and>
         size_b b1 = min (size_b b + 1) (buffer_size b) \<and>
         length (buffers b1) = 5 \<and> plain (buffers b1) \<and>
         map elems (buffers b1) =
           map2 (@) (map elems (buffers b)) [elems s, elems a, elems ns, elems r, elems d]"
    using b1 le Cons.prems(5,6) by (rule insert_append_step)
  have sz: "size_b b1 = total_size b1"
    using st Cons.prems(2,3,4) by (simp add: min_def)
  have ih: "buffer_size b' = maxsize \<and> total_size b' = total_size b1 + int (length ts) \<and>
         size_b b' = total_size b' \<and>
         map elems (buffers b') = map2 (@) (map elems (buffers b1)) (map (\<lambda>f. field_elems f ts) fields)"
    using st sz Cons.prems(2,4) by (intro Cons.IH[OF rest]) auto
  obtain e0 e1 e2 e3 e4 where es: "map elems (buffers b) = [e0, e1, e2, e3, e4]"
    using length_five[of "map elems (buffers b)"] Cons.prems(5) by auto
  have "map2 (@) (map elems (buffers b1)) (map (\<lambda>f. field_elems f ts) fields) =
        map2 (@) (map elems (buffers b)) (map (\<lambda>f. field_elems f (t # ts)) fields)"
    using st es by (simp add: fields_def field_elems_def t)
  then show ?case
    using ih st by simp
qed

lemma init_unbounded:
  fixes b0 :: "'a::zero buffer"
  assumes "init ss as dt (- 1) = Inr b0"
  shows "buffer_size b0 = maxsize \<and> size_b b0 = 0 \<and> total_size b0 = 0 \<and>
         length (buffers b0) = 5 \<and> plain (buffers b0) \<and>
         map elems (buffers b0) = [[], [], [], [], []]"
  using assms
  by (auto simp: init_def clear_def zeros_def plain_def split: if_splits)

text \<open>
  C8. A buffer built without a buffer size, and any sequence of insertions that return,
  of a length a machine can hold (at most \<^verbatim>\<open>sys.maxsize\<close>): every insertion starts with
  the condition of line 53 true, so it appends; the size and the total both equal the
  number of insertions; and each storage array holds the elements of all the inserted
  fields in insertion order, so nothing was replaced.
\<close>

theorem unbounded_appends:
  fixes b0 :: "'a::zero buffer"
  assumes "init ss as dt (- 1) = Inr b0" and "seq_insert ts b0 = (None, b)"
    and "int (length ts) \<le> maxsize"
  shows "size_b b = int (length ts) \<and> total_size b = int (length ts) \<and>
         map elems (buffers b) = map (\<lambda>f. field_elems f ts) fields \<and>
         (\<forall>k<length ts. \<exists>bk. seq_insert (take k ts) b0 = (None, bk) \<and>
                              total_size bk \<le> buffer_size bk)"
proof -
  have i: "buffer_size b0 = maxsize" "size_b b0 = total_size b0" "total_size b0 = 0"
    "length (buffers b0) = 5" "plain (buffers b0)"
    "map elems (buffers b0) = [[], [], [], [], []]"
    using init_unbounded[OF assms(1)] by simp_all
  have run: "buffer_size b = maxsize \<and> total_size b = total_size b0 + int (length ts) \<and>
         size_b b = total_size b \<and>
         map elems (buffers b) = map2 (@) (map elems (buffers b0)) (map (\<lambda>f. field_elems f ts) fields)"
    using assms(2) i(1,2) _ i(4,5) by (rule unbounded_run) (simp add: i(3) assms(3))
  have "map2 (@) [[], [], [], [], []] (map (\<lambda>f. field_elems f ts) fields) =
        map (\<lambda>f. field_elems f ts) fields"
    by (simp add: fields_def)
  then have cont: "map elems (buffers b) = map (\<lambda>f. field_elems f ts) fields"
    using run i(6) by simp
  have pre: "\<exists>bk. seq_insert (take k ts) b0 = (None, bk) \<and> total_size bk \<le> buffer_size bk"
    if k: "k < length ts" for k
  proof -
    have "seq_insert (take k ts @ drop k ts) b0 = (None, b)"
      using assms(2) by simp
    then obtain bk where bk: "seq_insert (take k ts) b0 = (None, bk)"
      using seq_insert_append by blast
    have "buffer_size bk = maxsize \<and> total_size bk = total_size b0 + int (length (take k ts)) \<and>
         size_b bk = total_size bk \<and>
         map elems (buffers bk) =
           map2 (@) (map elems (buffers b0)) (map (\<lambda>f. field_elems f (take k ts)) fields)"
      using bk i(1,2) _ i(4,5) by (rule unbounded_run) (use k assms(3) i(3) in simp)
    then have "total_size bk \<le> buffer_size bk"
      using k assms(3) i(3) by simp
    then show ?thesis using bk by blast
  qed
  show ?thesis
    using run cont pre i(3) by simp
qed

theorem unbounded_appends_witness:
  "init [1] [] Int64 (- 1) = Inr ex_unbounded \<and>
   fst (seq_insert [(Tensor [1] [5], Tensor [] [0], Tensor [1] [6], Tensor [] [1], Tensor [] [0]),
                    (Tensor [1] [6], Tensor [] [1], Tensor [1] [7], Tensor [] [1], Tensor [] [1])]
          ex_unbounded) = None \<and>
   (2::int) \<le> maxsize \<and>
   size_b (snd (seq_insert [(Tensor [1] [5], Tensor [] [0], Tensor [1] [6], Tensor [] [1], Tensor [] [0]),
                    (Tensor [1] [6], Tensor [] [1], Tensor [1] [7], Tensor [] [1], Tensor [] [1])]
          ex_unbounded)) = 2 \<and>
   map elems (buffers (snd (seq_insert [(Tensor [1] [5], Tensor [] [0], Tensor [1] [6], Tensor [] [1], Tensor [] [0]),
                    (Tensor [1] [6], Tensor [] [1], Tensor [1] [7], Tensor [] [1], Tensor [] [1])]
          ex_unbounded))) = [[5, 6], [0, 1], [6, 7], [1, 1], [0, 1]]"
proof -
  let ?ts = "[(Tensor [1] [5], Tensor [] [0], Tensor [1] [6], Tensor [] [1], Tensor [] [0]),
              (Tensor [1] [6], Tensor [] [1], Tensor [1] [7], Tensor [] [1], Tensor [] [1])]
             :: int transition list"
  have ok: "fst (seq_insert ?ts ex_unbounded) = None"
    by code_simp
  then have run: "seq_insert ?ts ex_unbounded = (None, snd (seq_insert ?ts ex_unbounded))"
    by (simp add: prod_eq_iff)
  have le: "int (length ?ts) \<le> maxsize"
    by (simp add: maxsize_def)
  have f: "map (\<lambda>f. field_elems f ?ts) fields = [[5, 6], [0, 1], [6, 7], [1, 1], [0, 1]]"
    by (simp add: fields_def field_elems_def)
  show ?thesis
    using unbounded_appends[OF ex_unbounded_init run le] ex_unbounded_init ok le f
    by simp
qed

section \<open>Shapes that disagree with the fixed shapes\<close>

lemma cat0_tl:
  "cat0 a (unsqueeze0 n) = Inr c \<Longrightarrow> tl (shape a) \<noteq> [] \<Longrightarrow> tl (shape c) = tl (shape a)"
  by (auto simp: cat0_def unsqueeze0_def split: if_splits)

lemma cat_all_keeps:
  assumes "cat_all bs ns = Inr cs" "length ns = length bs"
  shows "keeps bs cs"
  using assms unfolding keeps_def
proof (induction bs ns arbitrary: cs rule: cat_all.induct)
  case (3 b bs n ns)
  then show ?case
    by (auto split: sum.splits dest: cat0_tl)
qed auto

lemma keeps_refl: "keeps bs bs"
  by (simp add: keeps_def list_all2_refl)

lemma map_shape_keeps: "map shape cs = map shape bs \<Longrightarrow> keeps bs cs"
proof (induction cs arbitrary: bs)
  case Nil
  then show ?case by (simp add: keeps_def)
next
  case (Cons c cs)
  then obtain b bs' where "bs = b # bs'" "shape c = shape b" "map shape cs = map shape bs'"
    by (cases bs) auto
  then show ?case
    using Cons.IH[of bs'] by (simp add: keeps_def)
qed

lemma advance_frame:
  "buffers (snd (advance b)) = buffers b \<and> state_shape (snd (advance b)) = state_shape b \<and>
   action_shape (snd (advance b)) = action_shape b \<and> action_dtype (snd (advance b)) = action_dtype b"
  by (simp add: advance_def)

lemma push_keeps:
  assumes "length nt = length (buffers b)"
  shows "keeps (buffers b) (buffers (snd (push nt b))) \<and>
         state_shape (snd (push nt b)) = state_shape b \<and>
         action_shape (snd (push nt b)) = action_shape b \<and>
         action_dtype (snd (push nt b)) = action_dtype b"
proof (cases "total_size b \<le> buffer_size b")
  case True
  show ?thesis
  proof (cases "cat_all (buffers b) nt")
    case (Inl e)
    then show ?thesis using True by (simp add: push_def keeps_refl)
  next
    case (Inr cs)
    then have "keeps (buffers b) cs"
      using assms by (rule cat_all_keeps)
    then show ?thesis
      using True Inr advance_frame[of "b\<lparr>buffers := cs\<rparr>"] by (simp add: push_def)
  qed
next
  case False
  obtain r cs where oc: "overwrite_all (buffers b) nt (ptr b) = (r, cs)"
    by (cases "overwrite_all (buffers b) nt (ptr b)")
  then have k: "keeps (buffers b) cs"
    by (intro map_shape_keeps overwrite_all_shape)
  show ?thesis
  proof (cases r)
    case None
    then show ?thesis
      using False oc k advance_frame[of "b\<lparr>buffers := cs\<rparr>"] by (simp add: push_def)
  next
    case (Some e)
    then show ?thesis
      using False oc k by (simp add: push_def)
  qed
qed

lemma keeps_nth: "keeps bs cs \<Longrightarrow> i < length bs \<Longrightarrow> tl (shape (bs ! i)) \<noteq> [] \<Longrightarrow>
  tl (shape (cs ! i)) = tl (shape (bs ! i))"
  by (simp add: keeps_def list_all2_conv_all_nth)

lemma insert_transition_shapes_fixed:
  assumes "shapes_fixed b"
  shows "shapes_fixed (snd (insert_transition s a ns r d b))"
proof -
  let ?nt = "[s, if action_dtype b = Int64 then np_list1 a else a, ns, np_list1 r, np_list1 d]"
  let ?b' = "snd (push ?nt b)"
  have len: "length ?nt = length (buffers b)"
    using assms by (simp add: shapes_fixed_def)
  have k: "keeps (buffers b) (buffers ?b')" and f: "state_shape ?b' = state_shape b"
    "action_shape ?b' = action_shape b" "action_dtype ?b' = action_dtype b"
    using push_keeps[OF len] by simp_all
  have l: "length (buffers ?b') = 5"
    using k len by (auto simp: keeps_def dest: list_all2_lengthD)
  have n: "tl (shape (buffers ?b' ! i)) = tl (shape (buffers b ! i))"
    if "i < 5" "tl (shape (buffers b ! i)) \<noteq> []" for i
    using keeps_nth[OF k] that len by simp
  have "shapes_fixed ?b'"
    unfolding shapes_fixed_def using assms l f n[of 0] n[of 1] n[of 2]
    by (auto simp: shapes_fixed_def)
  then show ?thesis
    by (simp add: insert_transition_def Let_def)
qed

lemma clear_shapes_fixed: "shapes_fixed (clear b)"
  by (simp add: shapes_fixed_def clear_def zeros_def)

lemma reachable_shapes_fixed: "reachable b \<Longrightarrow> shapes_fixed b"
proof (induction rule: reachable.induct)
  case (reach_init ss as dt bs b)
  then show ?case by (auto simp: init_def clear_shapes_fixed split: if_splits)
next
  case (reach_insert b s a ns r d)
  from reach_insert.IH show ?case by (rule insert_transition_shapes_fixed)
next
  case (reach_clear b)
  show ?case by (rule clear_shapes_fixed)
qed

lemma cat0_mismatch:
  "shape a \<noteq> [] \<Longrightarrow> tl (shape a) \<noteq> [] \<Longrightarrow> shape n \<noteq> tl (shape a) \<Longrightarrow>
   cat0 a (unsqueeze0 n) = Inl RuntimeError"
  by (auto simp: cat0_def unsqueeze0_def)

text \<open>
  C4, as stated, fails on the code in three ways. Once the buffer overwrites, a state
  of shape \<open>()\<close> is broadcast into a slot of shape \<open>(1,)\<close> and the call returns. There
  too, a call that raises on the action has already written the state. And with an
  empty \<^verbatim>\<open>state_shape\<close> the first insertion accepts a state of shape \<open>(3,)\<close>.
\<close>

theorem shape_mismatch_counterexample:
  "(total_size ex_four > buffer_size ex_four \<and>
    shape (Tensor [] [9 :: int]) \<noteq> state_shape ex_four \<and>
    fst (insert_transition (Tensor [] [9]) (Tensor [] [0]) (Tensor [1] [5])
           (Tensor [] [1]) (Tensor [] [0]) ex_four) = None) \<and>
   (fst (insert_transition (Tensor [1] [9]) (Tensor [2] [0, 0]) (Tensor [1] [5])
           (Tensor [] [1]) (Tensor [] [0]) ex_four) = Some RuntimeError \<and>
    snd (insert_transition (Tensor [1] [9]) (Tensor [2] [0, 0]) (Tensor [1] [5])
           (Tensor [] [1]) (Tensor [] [0]) ex_four) \<noteq> ex_four) \<and>
   (init [] [] Int64 3 = Inr ex_scalar \<and>
    shape (Tensor [3] [7, 8, 9 :: int]) \<noteq> state_shape ex_scalar \<and>
    fst (insert_transition (Tensor [3] [7, 8, 9]) (Tensor [] [0]) (Tensor [3] [8, 9, 10])
           (Tensor [] [1]) (Tensor [] [0]) ex_scalar) = None)"
  by code_simp

text \<open>
  C4, amended. On a \<^verbatim>\<open>TransitionBuffer\<close> in any state the program can reach, while
  the buffer still appends (\<^verbatim>\<open>total_size <= buffer_size\<close>) and neither fixed shape is
  empty, \<^verbatim>\<open>insert_transition\<close> raises whenever the state, the next state or the action
  has another shape than the fixed one (for discrete actions: is not a scalar), and
  that call leaves the buffer as it was.
\<close>

theorem shape_mismatch_raises:
  assumes "reachable b" and "total_size b \<le> buffer_size b" and "state_shape b \<noteq> []"
    and "action_dtype b = Int64 \<or> action_shape b \<noteq> []"
    and "shape s \<noteq> state_shape b \<or> shape ns \<noteq> state_shape b \<or>
         shape a \<noteq> (if action_dtype b = Int64 then [] else action_shape b)"
  shows "insert_transition s a ns r d b = (Some RuntimeError, b)"
proof -
  define a' where "a' = (if action_dtype b = Int64 then np_list1 a else a)"
  define nt where "nt = [s, a', ns, np_list1 r, np_list1 d]"
  have fx: "shapes_fixed b"
    using assms(1) by (rule reachable_shapes_fixed)
  then obtain b0 b1 b2 b3 b4 where bs: "buffers b = [b0, b1, b2, b3, b4]"
    using length_five[of "buffers b"] by (auto simp: shapes_fixed_def)
  have t0: "tl (shape b0) = state_shape b" and t2: "tl (shape b2) = state_shape b"
    using fx assms(3) bs by (simp_all add: shapes_fixed_def)
  have t1: "tl (shape b1) = (if action_dtype b = Int64 then [1] else action_shape b)"
    using fx assms(4) bs by (auto simp: shapes_fixed_def)
  have m0: "cat0 b0 (unsqueeze0 s) = Inl RuntimeError" if "shape s \<noteq> state_shape b"
    using that t0 assms(3) by (intro cat0_mismatch) auto
  have m2: "cat0 b2 (unsqueeze0 ns) = Inl RuntimeError" if "shape ns \<noteq> state_shape b"
    using that t2 assms(3) by (intro cat0_mismatch) auto
  have m1: "cat0 b1 (unsqueeze0 a') = Inl RuntimeError"
    if "shape a \<noteq> (if action_dtype b = Int64 then [] else action_shape b)"
    using that t1 assms(4) unfolding a'_def
    by (intro cat0_mismatch) (auto simp: np_list1_def split: if_splits)
  consider "shape s \<noteq> state_shape b"
    | "shape a \<noteq> (if action_dtype b = Int64 then [] else action_shape b)"
    | "shape ns \<noteq> state_shape b"
    using assms(5) by blast
  then have "\<exists>e. cat_all (buffers b) nt = Inl e"
  proof cases
    case 1
    then show ?thesis
      unfolding bs nt_def by (simp add: m0)
  next
    case 2
    then show ?thesis
      unfolding bs nt_def by (simp add: m1 split: sum.splits)
  next
    case 3
    then show ?thesis
      unfolding bs nt_def by (simp add: m2 split: sum.splits)
  qed
  then obtain e where e: "cat_all (buffers b) nt = Inl e"
    by blast
  then have "e = RuntimeError"
    using bs by (intro cat_all_error[OF e]) (simp add: nt_def)
  then have "push nt b = (Some RuntimeError, b)"
    using e assms(2) by (simp add: push_def)
  then show ?thesis
    by (simp add: insert_transition_def Let_def nt_def a'_def)
qed

theorem shape_mismatch_raises_witness:
  "reachable ex_three \<and> total_size ex_three \<le> buffer_size ex_three \<and>
   state_shape ex_three \<noteq> [] \<and> action_dtype ex_three = Int64 \<and>
   shape (Tensor [] [9 :: int]) \<noteq> state_shape ex_three \<and>
   insert_transition (Tensor [] [9]) (Tensor [] [0]) (Tensor [1] [5])
     (Tensor [] [1]) (Tensor [] [0]) ex_three = (Some RuntimeError, ex_three)"
proof -
  have h: "total_size ex_three \<le> buffer_size ex_three" "state_shape ex_three \<noteq> []"
    "action_dtype ex_three = Int64" "shape (Tensor [] [9 :: int]) \<noteq> state_shape ex_three"
    by code_simp+
  show ?thesis
    using shape_mismatch_raises[of ex_three "Tensor [] [9]" "Tensor [1] [5]" "Tensor [] [0]"
        "Tensor [] [1]" "Tensor [] [0]", OF ex_three_reachable h(1,2)] h ex_three_reachable
    by simp
qed

end
